theory Spec2Isabelle
  imports Complex_Main "HOL-Library.Multiset"
begin

section \<open>Shared-haplotype segment detection: a model of the clustering script\<close>

text \<open>
  The definitions follow \<^verbatim>\<open>graphs_for_true_matches.py\<close> from the line
  \<^verbatim>\<open># === shared_haplotype_with_ultra_rare_threshold (3).py ===\<close> on: the helper
  functions, \<^verbatim>\<open>flush_cluster\<close> and the scanning loop of \<^verbatim>\<open>main\<close>.
\<close>

subsection \<open>Python values\<close>

datatype py_error = IndexError

text \<open>
  A Python float: every finite double is a rational number, so comparisons on \<open>Finite\<close>
  values are exact. \<^verbatim>\<open>nan <= x\<close> and \<^verbatim>\<open>x <= nan\<close> are false.
\<close>

datatype pyfloat = Finite rat | PInf | NInf | NaN

fun float_le :: "pyfloat \<Rightarrow> pyfloat \<Rightarrow> bool" where
  "float_le NaN _ = False"
| "float_le _ NaN = False"
| "float_le NInf _ = True"
| "float_le _ PInf = True"
| "float_le (Finite a) (Finite b) = (a \<le> b)"
| "float_le (Finite a) NInf = False"
| "float_le PInf (Finite b) = False"
| "float_le PInf NInf = False"

text \<open>\<^verbatim>\<open>s.split(sep)\<close> for a separator of one character: never the empty list.\<close>

fun split_acc :: "char \<Rightarrow> string \<Rightarrow> string \<Rightarrow> string list" where
  "split_acc sep cur [] = [rev cur]"
| "split_acc sep cur (c # cs) =
     (if c = sep then rev cur # split_acc sep [] cs else split_acc sep (c # cur) cs)"

definition split_on :: "char \<Rightarrow> string \<Rightarrow> string list" where
  "split_on sep s = split_acc sep [] s"

text \<open>\<^verbatim>\<open>s.lstrip(chars)\<close>: drops leading characters while they belong to \<open>chars\<close>.\<close>

definition lstrip :: "string \<Rightarrow> string \<Rightarrow> string" where
  "lstrip chars s = dropWhile (\<lambda>c. c \<in> set chars) s"

text \<open>\<^verbatim>\<open>xs[i]\<close> with Python's negative indices; out of range raises.\<close>

definition py_get :: "'a list \<Rightarrow> int \<Rightarrow> py_error + 'a" where
  "py_get xs i =
     (if 0 \<le> i \<and> i < int (length xs) then Inr (xs ! nat i)
      else if i < 0 \<and> - int (length xs) \<le> i then Inr (xs ! nat (int (length xs) + i))
      else Inl IndexError)"

text \<open>\<^verbatim>\<open>xs[a:b]\<close>: negative bounds count from the end, and both are clipped.\<close>

definition py_bound :: "nat \<Rightarrow> int \<Rightarrow> nat" where
  "py_bound n a = (if a < 0 then nat (max 0 (int n + a)) else min (nat a) n)"

definition py_slice :: "'a list \<Rightarrow> int \<Rightarrow> int \<Rightarrow> 'a list" where
  "py_slice xs a b =
     (let lo = py_bound (length xs) a; hi = py_bound (length xs) b
      in take (hi - lo) (drop lo xs))"

subsection \<open>Variants\<close>

text \<open>
  The fields of a cyvcf2 record that the script reads. \<open>genotypes\<close> holds, per sample,
  the allele calls followed by the phasing flag; \<open>gt_types\<close> holds one category per
  sample (3 is homozygous alternate); \<open>CSQ\<close> is \<^verbatim>\<open>INFO.get('CSQ')\<close>.
\<close>

record variant =
  CHROM :: string
  POS :: int
  genotypes :: "int list list"
  gt_types :: "int list"
  CSQ :: "string option"

text \<open>
  \<^verbatim>\<open>variant_carriers\<close>: the indices whose first two calls contain a value above 0.
\<close>

definition carrier_list :: "variant \<Rightarrow> nat list" where
  "carrier_list v =
     filter (\<lambda>i. list_ex (\<lambda>allele. 0 < allele) (take 2 (genotypes v ! i)))
       [0 ..< length (genotypes v)]"

definition variant_carriers :: "variant \<Rightarrow> nat set" where
  "variant_carriers v = set (carrier_list v)"

subsection \<open>The ultra-rare test\<close>

text \<open>
  \<^verbatim>\<open>float(val)\<close> is a parameter \<open>fl\<close>: \<open>None\<close> stands for \<^verbatim>\<open>ValueError\<close>.
  \<open>gnomad_idx\<close> comes from \<^verbatim>\<open>list.index\<close>, hence a natural number.
\<close>

fun csq_loop :: "(string \<Rightarrow> pyfloat option) \<Rightarrow> nat \<Rightarrow> pyfloat \<Rightarrow> string list \<Rightarrow> bool" where
  "csq_loop fl idx thr [] = False"
| "csq_loop fl idx thr (entry # rest) =
     (let fields = split_on (CHR ''|'') entry in
      if length fields \<le> idx then csq_loop fl idx thr rest
      else
        let val = fields ! idx in
        if val = [] \<or> val = ''.'' then True
        else (case fl val of
                None \<Rightarrow> csq_loop fl idx thr rest
              | Some af \<Rightarrow> if float_le af thr then True else csq_loop fl idx thr rest))"

definition csq_entries_of :: "variant \<Rightarrow> string" where
  "csq_entries_of v = (case CSQ v of None \<Rightarrow> [] | Some s \<Rightarrow> s)"

definition is_ultra_rare_variant ::
  "(string \<Rightarrow> pyfloat option) \<Rightarrow> variant \<Rightarrow> nat \<Rightarrow> pyfloat \<Rightarrow> bool" where
  "is_ultra_rare_variant fl v gnomad_idx af_threshold =
     (let csq_entries = csq_entries_of v in
      if csq_entries = [] then False
      else csq_loop fl gnomad_idx af_threshold (split_on (CHR '','') csq_entries))"

text \<open>
  What the test looks for in one sub-entry: the field exists and is empty, a dot, or a
  number at or below the threshold.
\<close>

definition entry_rare :: "(string \<Rightarrow> pyfloat option) \<Rightarrow> nat \<Rightarrow> pyfloat \<Rightarrow> string \<Rightarrow> bool" where
  "entry_rare fl idx thr entry =
     (let fields = split_on (CHR ''|'') entry in
      idx < length fields \<and>
      (fields ! idx = [] \<or> fields ! idx = ''.'' \<or>
       (case fl (fields ! idx) of None \<Rightarrow> False | Some af \<Rightarrow> float_le af thr)))"

text \<open>The field of a sub-entry is absent: the entry has too few pipe-separated fields.\<close>

definition field_absent :: "nat \<Rightarrow> string \<Rightarrow> bool" where
  "field_absent idx entry = (length (split_on (CHR ''|'') entry) \<le> idx)"

subsection \<open>Shared carriers\<close>

text \<open>\<^verbatim>\<open>collections.Counter\<close> over a list: a dictionary in insertion order.\<close>

fun counter_add :: "nat \<Rightarrow> (nat \<times> nat) list \<Rightarrow> (nat \<times> nat) list" where
  "counter_add x [] = [(x, 1)]"
| "counter_add x ((k, c) # kcs) =
     (if k = x then (k, c + 1) # kcs else (k, c) # counter_add x kcs)"

definition Counter :: "nat list \<Rightarrow> (nat \<times> nat) list" where
  "Counter xs = foldl (\<lambda>m x. counter_add x m) [] xs"

text \<open>The count a \<open>Counter\<close> holds for a key, 0 when the key is missing.\<close>

definition cnt :: "(nat \<times> nat) list \<Rightarrow> nat \<Rightarrow> nat" where
  "cnt m i = (case map_of m i of None \<Rightarrow> 0 | Some c \<Rightarrow> c)"

text \<open>
  \<^verbatim>\<open>int(0.8 * total_variants)\<close>. The product is taken exactly here; the double product
  rounds to the same integer part for every list length below \<open>2 ^ 50\<close>, since the
  double nearest to 0.8 exceeds it by a relative \<open>2 ^ -54\<close> only.
\<close>

definition threshold_of :: "nat \<Rightarrow> int" where
  "threshold_of total_variants = \<lfloor>(8 / 10 :: rat) * of_nat total_variants\<rfloor>"

definition individual_sets :: "variant list \<Rightarrow> nat set list" where
  "individual_sets variants = map variant_carriers variants"

text \<open>
  Python leaves the iteration order of a set open; the counts do not depend on it, and
  the model walks each set in ascending order.
\<close>

definition flat_list :: "variant list \<Rightarrow> nat list" where
  "flat_list variants = concat (map sorted_list_of_set (individual_sets variants))"

definition shared_inds :: "variant list \<Rightarrow> nat set" where
  "shared_inds variants =
     (let count = Counter (flat_list variants);
          threshold = threshold_of (length (individual_sets variants))
      in set (map fst (filter (\<lambda>(i, c). threshold \<le> int c) count)))"

text \<open>The number of variants of a cluster at which an individual is a carrier.\<close>

definition carrier_count :: "variant list \<Rightarrow> nat \<Rightarrow> nat" where
  "carrier_count variants i = length (filter (\<lambda>v. i \<in> variant_carriers v) variants)"

text \<open>
  \<^verbatim>\<open>all_shared_homozygous\<close>: \<^verbatim>\<open>all(gt[i] == 3 for i in shared_inds)\<close>, which stops
  at the first call that is not 3; an index beyond \<open>gt_types\<close> raises.
\<close>

fun all_hom_loop :: "int list \<Rightarrow> nat list \<Rightarrow> py_error + bool" where
  "all_hom_loop gt [] = Inr True"
| "all_hom_loop gt (i # rest) =
     (case py_get gt (int i) of
        Inl e \<Rightarrow> Inl e
      | Inr g \<Rightarrow> if g = 3 then all_hom_loop gt rest else Inr False)"

definition all_shared_homozygous :: "variant \<Rightarrow> nat set \<Rightarrow> py_error + bool" where
  "all_shared_homozygous v sh = all_hom_loop (gt_types v) (sorted_list_of_set sh)"

subsection \<open>Gene regions\<close>

fun region_loop :: "string \<Rightarrow> int \<Rightarrow> int \<Rightarrow> (string \<times> int \<times> int) list \<Rightarrow> bool" where
  "region_loop chrom start end [] = False"
| "region_loop chrom start end ((region_chrom, region_start, region_end) # rest) =
     (if chrom = region_chrom \<and> \<not> (end < region_start \<or> start > region_end) then True
      else region_loop chrom start end rest)"

definition overlaps_gene_region ::
  "string \<Rightarrow> int \<Rightarrow> int \<Rightarrow> (string \<times> int \<times> int) list \<Rightarrow> bool" where
  "overlaps_gene_region chrom start end regions =
     region_loop (lstrip ''chr'' chrom) start end regions"

text \<open>The rows of the gene table and the list \<^verbatim>\<open>main\<close> builds from them.\<close>

record gene_row =
  chromosome_name :: string
  start_position :: int
  end_position :: int

definition BUFFER :: int where
  "BUFFER = 10000"

definition load_gene_regions :: "gene_row list \<Rightarrow> (string \<times> int \<times> int) list" where
  "load_gene_regions rows =
     map (\<lambda>row. (lstrip ''chr'' (chromosome_name row),
                  max 0 (start_position row - BUFFER),
                  end_position row + BUFFER)) rows"

text \<open>Normalising by the prefix alone, as the specification words it.\<close>

definition strip_chr_prefix :: "string \<Rightarrow> string" where
  "strip_chr_prefix s = (if take 3 s = ''chr'' then drop 3 s else s)"

text \<open>
  The gene-region filter as the specification words it: some row of the gene table is on
  the block's chromosome, both names taken without the prefix, and its padded interval
  meets the block.
\<close>

definition spec_gene_filter :: "string \<Rightarrow> int \<Rightarrow> int \<Rightarrow> gene_row list \<Rightarrow> bool" where
  "spec_gene_filter chrom start end rows =
     list_ex (\<lambda>row. strip_chr_prefix chrom = strip_chr_prefix (chromosome_name row)
                \<and> \<not> (end < max 0 (start_position row - BUFFER)
                       \<or> start > end_position row + BUFFER)) rows"

subsection \<open>Segmentation of a cluster by genotype mode\<close>

type_synonym block = "int \<times> int \<times> string option"

fun segment_loop ::
  "nat set \<Rightarrow> int \<Rightarrow> variant list \<Rightarrow> block list \<Rightarrow> string option \<Rightarrow> int
     \<Rightarrow> py_error + (block list \<times> string option \<times> int)" where
  "segment_loop sh idx [] blocks cur_mode block_start = Inr (blocks, cur_mode, block_start)"
| "segment_loop sh idx (v # vs) blocks cur_mode block_start =
     (case all_shared_homozygous v sh of
        Inl e \<Rightarrow> Inl e
      | Inr hom \<Rightarrow>
          let mode = (if hom then ''double'' else ''single'') in
          if cur_mode = None then segment_loop sh (idx + 1) vs blocks (Some mode) block_start
          else if Some mode \<noteq> cur_mode
          then segment_loop sh (idx + 1) vs (blocks @ [(block_start, idx - 1, cur_mode)])
                 (Some mode) idx
          else segment_loop sh (idx + 1) vs blocks cur_mode block_start)"

definition segment_blocks :: "variant list \<Rightarrow> nat set \<Rightarrow> py_error + block list" where
  "segment_blocks variants sh =
     (case segment_loop sh 0 variants [] None 0 of
        Inl e \<Rightarrow> Inl e
      | Inr (blocks, cur_mode, block_start) \<Rightarrow>
          Inr (blocks @ [(block_start, int (length variants) - 1, cur_mode)]))"

text \<open>The index range of a block, and its size.\<close>

definition block_range :: "block \<Rightarrow> int list" where
  "block_range b = (case b of (b_start, b_end, mode) \<Rightarrow> [b_start .. b_end])"

definition block_size :: "block \<Rightarrow> int" where
  "block_size b = (case b of (b_start, b_end, mode) \<Rightarrow> b_end - b_start + 1)"

definition block_mode :: "block \<Rightarrow> string option" where
  "block_mode b = (case b of (b_start, b_end, mode) \<Rightarrow> mode)"

subsection \<open>Flushing a cluster\<close>

record config =
  min_individuals :: int
  min_variants :: int
  max_individuals :: "int option"
  min_segment_length :: "int option"
  max_segment_length :: "int option"
  sample_ids :: "string list"
  gene_regions :: "(string \<times> int \<times> int) list"
  gnomad_idx :: nat
  min_ultra_rare :: int
  af_threshold :: pyfloat

text \<open>One printed line, field by field.\<close>

record out_record =
  out_chrom :: string
  out_start :: int
  out_end :: int
  out_n_variants :: nat
  out_n_individuals :: nat
  out_individuals :: string
  out_mode :: "string option"
  out_err_left :: "int option"
  out_err_right :: "int option"
  out_n_ultra_rare :: nat
  out_filter :: string

fun lookup_ids :: "string list \<Rightarrow> nat list \<Rightarrow> py_error + string list" where
  "lookup_ids ids [] = Inr []"
| "lookup_ids ids (i # rest) =
     (case py_get ids (int i) of
        Inl e \<Rightarrow> Inl e
      | Inr x \<Rightarrow> (case lookup_ids ids rest of Inl e \<Rightarrow> Inl e | Inr xs \<Rightarrow> Inr (x # xs)))"

fun join :: "string \<Rightarrow> string list \<Rightarrow> string" where
  "join sep [] = []"
| "join sep [x] = x"
| "join sep (x # y # ys) = x @ sep @ join sep (y # ys)"

text \<open>A bound that is \<^verbatim>\<open>None\<close> is not checked.\<close>

definition below_bound :: "int \<Rightarrow> int option \<Rightarrow> bool" where
  "below_bound x b = (case b of None \<Rightarrow> False | Some m \<Rightarrow> x < m)"

definition above_bound :: "int \<Rightarrow> int option \<Rightarrow> bool" where
  "above_bound x b = (case b of None \<Rightarrow> False | Some m \<Rightarrow> x > m)"

text \<open>The position of a neighbouring variant, or the remembered flank.\<close>

definition flank_pos :: "bool \<Rightarrow> variant list \<Rightarrow> int \<Rightarrow> int option \<Rightarrow> py_error + int option" where
  "flank_pos inside variants i outer =
     (if inside then (case py_get variants i of Inl e \<Rightarrow> Inl e | Inr v \<Rightarrow> Inr (Some (POS v)))
      else Inr outer)"

text \<open>
  The body of the loop over the blocks: \<open>Inr None\<close> for \<^verbatim>\<open>continue\<close>,
  \<open>Inr (Some r)\<close> for a printed line.
\<close>

definition process_block ::
  "(string \<Rightarrow> pyfloat option) \<Rightarrow> config \<Rightarrow> variant list \<Rightarrow> int option \<Rightarrow> int option
     \<Rightarrow> string \<Rightarrow> nat \<Rightarrow> string \<Rightarrow> block \<Rightarrow> py_error + out_record option" where
  "process_block fl cfg variants prev_nonshared next_nonshared chrom n_shared inds_str b =
     (case b of (b_start, b_end, mode) \<Rightarrow>
      (let block_vars = py_slice variants b_start (b_end + 1) in
       (case py_get block_vars (- 1) of
          Inl e \<Rightarrow> Inl e
        | Inr v_last \<Rightarrow>
       (case py_get block_vars 0 of
          Inl e \<Rightarrow> Inl e
        | Inr v_first \<Rightarrow>
       (let segment_length = POS v_last - POS v_first in
        if int (length block_vars) < min_variants cfg
           \<or> below_bound segment_length (min_segment_length cfg)
           \<or> above_bound segment_length (max_segment_length cfg)
        then Inr None
        else
         (let start = POS v_first; end = POS v_last in
          if \<not> overlaps_gene_region chrom start end (gene_regions cfg) then Inr None
          else
           (let n_ultra_rare =
                  length (filter (\<lambda>v. is_ultra_rare_variant fl v (gnomad_idx cfg) (af_threshold cfg))
                            block_vars)
            in
            if int n_ultra_rare < min_ultra_rare cfg then Inr None
            else
             (case flank_pos (b_start > 0) variants (b_start - 1) prev_nonshared of
                Inl e \<Rightarrow> Inl e
              | Inr left_flank \<Rightarrow>
             (case flank_pos (b_end + 1 < int (length variants)) variants (b_end + 1)
                     next_nonshared of
                Inl e \<Rightarrow> Inl e
              | Inr right_flank \<Rightarrow>
                  Inr (Some \<lparr>out_chrom = chrom, out_start = start, out_end = end,
                             out_n_variants = length block_vars, out_n_individuals = n_shared,
                             out_individuals = inds_str, out_mode = mode,
                             out_err_left = (case left_flank of None \<Rightarrow> None
                                             | Some p \<Rightarrow> Some (start - p)),
                             out_err_right = (case right_flank of None \<Rightarrow> None
                                              | Some p \<Rightarrow> Some (p - end)),
                             out_n_ultra_rare = n_ultra_rare,
                             out_filter = ''ULTRA_RARE''\<rparr>))))))))))"

text \<open>
  The lines printed, in order, and the exception that ended the call, if any.
\<close>

type_synonym printed = "out_record list \<times> py_error option"

fun emit_blocks ::
  "(string \<Rightarrow> pyfloat option) \<Rightarrow> config \<Rightarrow> variant list \<Rightarrow> int option \<Rightarrow> int option
     \<Rightarrow> string \<Rightarrow> nat \<Rightarrow> string \<Rightarrow> block list \<Rightarrow> printed" where
  "emit_blocks fl cfg variants p n chrom n_shared inds_str [] = ([], None)"
| "emit_blocks fl cfg variants p n chrom n_shared inds_str (b # bs) =
     (case process_block fl cfg variants p n chrom n_shared inds_str b of
        Inl e \<Rightarrow> ([], Some e)
      | Inr None \<Rightarrow> emit_blocks fl cfg variants p n chrom n_shared inds_str bs
      | Inr (Some r) \<Rightarrow>
          (case emit_blocks fl cfg variants p n chrom n_shared inds_str bs of
             (rs, e) \<Rightarrow> (r # rs, e)))"

definition flush_cluster ::
  "(string \<Rightarrow> pyfloat option) \<Rightarrow> config \<Rightarrow> variant list \<Rightarrow> int option \<Rightarrow> int option
     \<Rightarrow> printed" where
  "flush_cluster fl cfg variants prev_nonshared_pos next_nonshared_pos =
     (if variants = [] then ([], None)
      else
        let sh = shared_inds variants; n_shared = card sh in
        if int n_shared < min_individuals cfg then ([], None)
        else if above_bound (int n_shared) (max_individuals cfg) then ([], None)
        else
         (case py_get variants 0 of
            Inl e \<Rightarrow> ([], Some e)
          | Inr v0 \<Rightarrow>
         (case lookup_ids (sample_ids cfg) (sorted_list_of_set sh) of
            Inl e \<Rightarrow> ([], Some e)
          | Inr ids \<Rightarrow>
         (case segment_blocks variants sh of
            Inl e \<Rightarrow> ([], Some e)
          | Inr blocks \<Rightarrow>
              emit_blocks fl cfg variants prev_nonshared_pos next_nonshared_pos
                (CHROM v0) n_shared (join '','' ids) blocks))))"

subsection \<open>The scanning loop of main\<close>

record acc_state =
  current_cluster :: "variant list"
  prev_nonshared_pos :: "int option"
  last_pos :: "int option"

definition init_state :: acc_state where
  "init_state = \<lparr>current_cluster = [], prev_nonshared_pos = None, last_pos = None\<rparr>"

text \<open>A call of \<^verbatim>\<open>flush_cluster\<close>: the cluster, the previous flank, the next flank.\<close>

datatype flush_call = Flush "variant list" "int option" "int option"

text \<open>One pass of the loop body: the flush it asks for, if any, and the next state.\<close>

definition step :: "int \<Rightarrow> acc_state \<Rightarrow> variant \<Rightarrow> py_error + (flush_call option \<times> acc_state)" where
  "step cluster_distance s v =
     (case last_pos s of
        None \<Rightarrow>
          Inr (None, s\<lparr>current_cluster := current_cluster s @ [v], last_pos := Some (POS v)\<rparr>)
      | Some lp \<Rightarrow>
          (case py_get (current_cluster s) 0 of
             Inl e \<Rightarrow> Inl e
           | Inr c0 \<Rightarrow>
               if CHROM v \<noteq> CHROM c0
               then Inr (Some (Flush (current_cluster s) (prev_nonshared_pos s) None),
                         \<lparr>current_cluster = [v], prev_nonshared_pos = None,
                          last_pos = Some (POS v)\<rparr>)
               else
                 let distance = POS v - lp in
                 if distance \<le> cluster_distance
                 then Inr (None, s\<lparr>current_cluster := current_cluster s @ [v],
                                   last_pos := Some (POS v)\<rparr>)
                 else
                   (case py_get (current_cluster s) (- 1) of
                      Inl e \<Rightarrow> Inl e
                    | Inr c_last \<Rightarrow>
                        Inr (Some (Flush (current_cluster s) (prev_nonshared_pos s) (Some (POS v))),
                             \<lparr>current_cluster = [v], prev_nonshared_pos = Some (POS c_last),
                              last_pos = Some (POS v)\<rparr>))))"

text \<open>The state after a prefix of the stream.\<close>

fun run_steps :: "int \<Rightarrow> acc_state \<Rightarrow> variant list \<Rightarrow> py_error + acc_state" where
  "run_steps cd s [] = Inr s"
| "run_steps cd s (v # vs) =
     (case step cd s v of Inl e \<Rightarrow> Inl e | Inr (call, s') \<Rightarrow> run_steps cd s' vs)"

definition do_flush ::
  "(string \<Rightarrow> pyfloat option) \<Rightarrow> config \<Rightarrow> flush_call \<Rightarrow> printed" where
  "do_flush fl cfg call = (case call of Flush c p n \<Rightarrow> flush_cluster fl cfg c p n)"

text \<open>The whole loop with the flush after it.\<close>

fun main_loop ::
  "(string \<Rightarrow> pyfloat option) \<Rightarrow> config \<Rightarrow> int \<Rightarrow> acc_state \<Rightarrow> variant list \<Rightarrow> printed" where
  "main_loop fl cfg cd s [] =
     do_flush fl cfg (Flush (current_cluster s) (prev_nonshared_pos s) None)"
| "main_loop fl cfg cd s (v # vs) =
     (case step cd s v of
        Inl e \<Rightarrow> ([], Some e)
      | Inr (None, s') \<Rightarrow> main_loop fl cfg cd s' vs
      | Inr (Some call, s') \<Rightarrow>
          (case do_flush fl cfg call of
             (rs, Some e) \<Rightarrow> (rs, Some e)
           | (rs, None) \<Rightarrow> (case main_loop fl cfg cd s' vs of (rs', e) \<Rightarrow> (rs @ rs', e))))"

text \<open>
  What one call prints followed by what the rest of the run prints; an exception in the
  first ends the run.
\<close>

definition seq_printed :: "printed \<Rightarrow> printed \<Rightarrow> printed" where
  "seq_printed a b =
     (case a of
        (rs, Some e) \<Rightarrow> (rs, Some e)
      | (rs, None) \<Rightarrow> (case b of (rs', e) \<Rightarrow> (rs @ rs', e)))"

subsection \<open>Invariants of the two loops\<close>

text \<open>
  Blocks that follow one another from index \<open>a\<close> to index \<open>b - 1\<close>: each starts where the one
  before ended, and none is empty.
\<close>

fun chained :: "int \<Rightarrow> block list \<Rightarrow> int \<Rightarrow> bool" where
  "chained a [] b = (a = b)"
| "chained a ((s, e, m) # bs) b = (s = a \<and> s \<le> e \<and> chained (e + 1) bs b)"

text \<open>
  Neighbouring blocks differ in mode.
\<close>

fun alternating :: "block list \<Rightarrow> bool" where
  "alternating (b1 # b2 # bs) = (block_mode b1 \<noteq> block_mode b2 \<and> alternating (b2 # bs))"
| "alternating bs = True"

text \<open>
  What the segmentation loop keeps true before it reads the variant at \<open>idx\<close>: the closed
  blocks cover the indices below \<open>block_start\<close>, the open block is not empty once a mode is
  set, and its mode differs from the mode of the block closed last.
\<close>

definition seg_inv :: "int \<Rightarrow> block list \<Rightarrow> string option \<Rightarrow> int \<Rightarrow> bool" where
  "seg_inv idx blocks cur bstart =
     (chained 0 blocks bstart \<and> alternating blocks
      \<and> (blocks \<noteq> [] \<longrightarrow> block_mode (last blocks) \<noteq> cur)
      \<and> (if cur = None then idx = bstart \<and> blocks = [] else bstart < idx))"

text \<open>
  The loop of \<^verbatim>\<open>main\<close> keeps \<open>last_pos\<close> at the position of the last buffered variant, and
  \<^verbatim>\<open>None\<close> exactly while nothing is buffered.
\<close>

definition acc_inv :: "acc_state \<Rightarrow> bool" where
  "acc_inv s =
     (case last_pos s of
        None \<Rightarrow> current_cluster s = []
      | Some lp \<Rightarrow> current_cluster s \<noteq> [] \<and> lp = POS (last (current_cluster s)))"

subsection \<open>Example data\<close>

text \<open>A parser for the examples: four literals whose doubles are exact.\<close>

definition sample_float :: "string \<Rightarrow> pyfloat option" where
  "sample_float = map_of
     [(''0'', Finite 0), (''0.25'', Finite (1 / 4)), (''0.5'', Finite (1 / 2)), (''1'', Finite 1)]"

definition mk_variant :: "string \<Rightarrow> int \<Rightarrow> int list list \<Rightarrow> int list \<Rightarrow> string option \<Rightarrow> variant" where
  "mk_variant c p g t a = \<lparr>CHROM = c, POS = p, genotypes = g, gt_types = t, CSQ = a\<rparr>"

text \<open>Two samples: at \<open>v_both\<close> both carry, at \<open>v_first\<close> the first only, at \<open>v_none\<close> none.\<close>

definition v_both :: "int \<Rightarrow> variant" where
  "v_both p = mk_variant ''1'' p [[0, 1, 0], [1, 1, 0]] [1, 3] None"

definition v_first :: "int \<Rightarrow> variant" where
  "v_first p = mk_variant ''1'' p [[0, 1, 0], [0, 0, 0]] [1, 0] None"

definition v_none :: "int \<Rightarrow> variant" where
  "v_none p = mk_variant ''1'' p [[0, 0, 0], [0, 0, 0]] [0, 0] None"

definition ex10 :: "variant list" where
  "ex10 = map v_both [100, 110, 120, 130, 140, 150, 160] @ [v_first 170, v_none 180, v_none 190]"

text \<open>
  A configuration for the examples.
\<close>

definition cfg0 :: config where
  "cfg0 = \<lparr>min_individuals = 2, min_variants = 2, max_individuals = Some 5,
           min_segment_length = Some 0, max_segment_length = None,
           sample_ids = [''S0'', ''S1''], gene_regions = [(''1'', 0, 10000)],
           gnomad_idx = 0, min_ultra_rare = 0, af_threshold = Finite (1 / 4)\<rparr>"

text \<open>
  The state after two variants 10 apart.
\<close>

definition st2 :: acc_state where
  "st2 = \<lparr>current_cluster = [v_both 100, v_both 110], prev_nonshared_pos = None,
          last_pos = Some 110\<rparr>"

text \<open>
  A variant at which both samples are homozygous, and a cluster whose third variant has a
  heterozygous carrier.
\<close>

definition v_hom :: "int \<Rightarrow> variant" where
  "v_hom p = mk_variant ''1'' p [[1, 1, 0], [1, 1, 0]] [3, 3] None"

definition ex_seg :: "variant list" where
  "ex_seg = [v_hom 100, v_hom 110, v_both 120, v_hom 130, v_hom 140]"

text \<open>
  The two lines that cluster prints with a previous flank at 50 and no next flank.
\<close>

definition rec1 :: out_record where
  "rec1 = \<lparr>out_chrom = ''1'', out_start = 100, out_end = 110, out_n_variants = 2,
           out_n_individuals = 2, out_individuals = ''S0,S1'', out_mode = Some ''double'',
           out_err_left = Some 50, out_err_right = Some 10, out_n_ultra_rare = 0,
           out_filter = ''ULTRA_RARE''\<rparr>"

definition rec2 :: out_record where
  "rec2 = \<lparr>out_chrom = ''1'', out_start = 130, out_end = 140, out_n_variants = 2,
           out_n_individuals = 2, out_individuals = ''S0,S1'', out_mode = Some ''double'',
           out_err_left = Some 10, out_err_right = None, out_n_ultra_rare = 0,
           out_filter = ''ULTRA_RARE''\<rparr>"

text \<open>A gene row on the decoy contig of the b37 reference.\<close>

definition row_hs37d5 :: gene_row where
  "row_hs37d5 = \<lparr>chromosome_name = ''hs37d5'', start_position = 20000, end_position = 30000\<rparr>"

section \<open>Properties\<close>

lemma csq_loop_iff:
  "csq_loop fl idx thr es = list_ex (entry_rare fl idx thr) es"
  by (induction es) (auto simp: entry_rare_def Let_def split: option.splits)

text \<open>
  C1 (as the code has it): on a non-empty annotation the test is true exactly when some
  comma-separated sub-entry has a field at the configured index that is empty, a dot,
  or parses to a frequency at or below the threshold. A sub-entry with too few fields
  and a sub-entry whose field does not parse are passed over, and a missing or empty
  annotation is never ultra-rare. Hence a false result means that every sub-entry
  whose field parses has a frequency that is not at or below the threshold.
\<close>

theorem C1_is_ultra_rare_iff:
  "is_ultra_rare_variant fl v idx thr \<longleftrightarrow>
     (csq_entries_of v \<noteq> [] \<and>
      (\<exists>entry \<in> set (split_on (CHR '','') (csq_entries_of v)). entry_rare fl idx thr entry))"
  by (simp add: is_ultra_rare_variant_def Let_def csq_loop_iff list_ex_iff)

theorem C1_is_ultra_rare_iff_witness:
  "is_ultra_rare_variant sample_float (mk_variant ''1'' 5 [] [] (Some ''A|x|1,B|0.25'')) 1 (Finite (1 / 4))
   \<and> \<not> is_ultra_rare_variant sample_float (mk_variant ''1'' 5 [] [] (Some ''A|x|1,B|0.5'')) 1 (Finite (1 / 4))"
  unfolding C1_is_ultra_rare_iff [of sample_float _ 1 "Finite (1 / 4)"]
  by (simp add: csq_entries_of_def mk_variant_def split_on_def entry_rare_def sample_float_def)

text \<open>
  C1 as stated fails: the only sub-entry of \<open>A|B\<close> has no field at index 2 (the field is
  absent), and the test answers false.
\<close>

theorem C1_absent_field_counterexample:
  "field_absent 2 ''A|B'' \<and> ''A|B'' \<in> set (split_on (CHR '','') ''A|B'')
   \<and> \<not> is_ultra_rare_variant sample_float (mk_variant ''1'' 5 [] [] (Some ''A|B'')) 2 (Finite (1 / 4))"
  by (simp add: field_absent_def is_ultra_rare_variant_def csq_entries_of_def mk_variant_def
      split_on_def)

subsection \<open>The carrier set\<close>

lemma cnt_counter_add: "cnt (counter_add x m) i = cnt m i + (if i = x then 1 else 0)"
  by (induction m) (auto simp: cnt_def)

lemma keys_counter_add: "set (map fst (counter_add x m)) = insert x (set (map fst m))"
  by (induction x m rule: counter_add.induct) auto

lemma distinct_counter_add: "distinct (map fst m) \<Longrightarrow> distinct (map fst (counter_add x m))"
  using keys_counter_add [of x] by (induction x m rule: counter_add.induct) auto

lemma pos_counter_add: "\<forall>(k, c) \<in> set m. 0 < c \<Longrightarrow> \<forall>(k, c) \<in> set (counter_add x m). 0 < c"
  by (induction m) (auto split: if_splits)

lemma counter_fold:
  "distinct (map fst m) \<Longrightarrow> \<forall>(k, c) \<in> set m. 0 < c \<Longrightarrow>
   distinct (map fst (foldl (\<lambda>m x. counter_add x m) m xs)) \<and>
   (\<forall>(k, c) \<in> set (foldl (\<lambda>m x. counter_add x m) m xs). 0 < c) \<and>
   (\<forall>i. cnt (foldl (\<lambda>m x. counter_add x m) m xs) i = cnt m i + count_list xs i)"
proof (induction xs arbitrary: m)
  case Nil
  then show ?case by simp
next
  case (Cons x xs)
  have d: "distinct (map fst (counter_add x m))" using Cons.prems(1) by (rule distinct_counter_add)
  have p: "\<forall>(k, c) \<in> set (counter_add x m). 0 < c" using Cons.prems(2) by (rule pos_counter_add)
  from Cons.IH [OF d p] show ?case by (auto simp: cnt_counter_add)
qed

lemma Counter_mem:
  "(i, c) \<in> set (Counter xs) \<longleftrightarrow> 0 < c \<and> c = count_list xs i"
proof -
  have f: "distinct (map fst (Counter xs))" "\<forall>(k, c) \<in> set (Counter xs). 0 < c"
    "\<And>i. cnt (Counter xs) i = count_list xs i"
    using counter_fold [of "[]" xs] by (auto simp: Counter_def cnt_def)
  show ?thesis
  proof
    assume a: "(i, c) \<in> set (Counter xs)"
    then have "map_of (Counter xs) i = Some c" using f(1) by simp
    then have "cnt (Counter xs) i = c" by (simp add: cnt_def)
    with f(2,3) a show "0 < c \<and> c = count_list xs i" by auto
  next
    assume a: "0 < c \<and> c = count_list xs i"
    then have "cnt (Counter xs) i = c" using f(3) by simp
    with a obtain c' where "map_of (Counter xs) i = Some c'" "c' = c"
      by (auto simp: cnt_def split: option.splits)
    then show "(i, c) \<in> set (Counter xs)" by (auto dest: map_of_SomeD)
  qed
qed

lemma count_list_concat: "count_list (concat xss) i = sum_list (map (\<lambda>xs. count_list xs i) xss)"
  by (induction xss) auto

lemma count_list_distinct: "distinct xs \<Longrightarrow> count_list xs i = (if i \<in> set xs then 1 else 0)"
  by (induction xs) auto

lemma finite_variant_carriers: "finite (variant_carriers v)"
  by (simp add: variant_carriers_def)

lemma count_flat_list: "count_list (flat_list vs) i = carrier_count vs i"
  by (induction vs)
    (auto simp: flat_list_def individual_sets_def carrier_count_def count_list_distinct
      finite_variant_carriers)

lemma threshold_of_div: "threshold_of n = (4 * int n) div 5"
proof -
  have "(8 / 10 :: rat) * of_nat n = of_int (4 * int n) / of_int 5" by simp
  then show ?thesis unfolding threshold_of_def by (simp only: floor_divide_of_int_eq)
qed

lemma shared_inds_iff:
  "i \<in> shared_inds vs \<longleftrightarrow>
     0 < carrier_count vs i \<and> threshold_of (length vs) \<le> int (carrier_count vs i)"
  by (auto simp: shared_inds_def Let_def individual_sets_def Counter_mem count_flat_list image_iff)

lemma carriers_examples:
  "variant_carriers (v_both p) = {0, 1}" "variant_carriers (v_first p) = {0}"
  "variant_carriers (v_none p) = {}"
  by (auto simp: variant_carriers_def carrier_list_def v_both_def v_first_def v_none_def
      mk_variant_def upt_rec [of 0] upt_rec [of 1] upt_rec [of 2] numeral_2_eq_2)

text \<open>
  C2 (as the code has it): an individual is in the carrier set of a flushed cluster of
  \<open>n\<close> variants exactly when the number of variants at which it is a carrier is at
  least 1 and at least \<open>\<lfloor>0.8 * n\<rfloor>\<close>. For 10 variants the threshold is 8: a carrier
  at 8 of them is included, a carrier at 7 of them is not.
\<close>

theorem C2_shared_iff:
  "(i \<in> shared_inds vs \<longleftrightarrow>
      0 < carrier_count vs i \<and> threshold_of (length vs) \<le> int (carrier_count vs i))
   \<and> threshold_of 10 = 8
   \<and> (length vs = 10 \<longrightarrow>
        (carrier_count vs i = 8 \<longrightarrow> i \<in> shared_inds vs) \<and>
        (carrier_count vs i = 7 \<longrightarrow> i \<notin> shared_inds vs))"
  by (simp add: shared_inds_iff threshold_of_div)

theorem C2_shared_iff_witness:
  "length ex10 = 10 \<and> carrier_count ex10 0 = 8 \<and> 0 \<in> shared_inds ex10
   \<and> carrier_count ex10 1 = 7 \<and> 1 \<notin> shared_inds ex10"
proof -
  have l: "length ex10 = 10" by (simp add: ex10_def)
  have c0: "carrier_count ex10 0 = 8" by (simp add: ex10_def carrier_count_def carriers_examples)
  have c1: "carrier_count ex10 1 = 7" by (simp add: ex10_def carrier_count_def carriers_examples)
  from C2_shared_iff [of 0 ex10] C2_shared_iff [of 1 ex10] l c0 c1 show ?thesis by simp
qed

text \<open>
  C2 as stated fails for a cluster of one variant: the threshold is 0, the second sample
  carries nothing and so reaches it, and yet is not in the carrier set.
\<close>

theorem C2_zero_threshold_counterexample:
  "threshold_of (length [v_first 100]) \<le> int (carrier_count [v_first 100] 1)
   \<and> 1 \<notin> shared_inds [v_first 100]"
  by (simp add: shared_inds_iff threshold_of_div carrier_count_def carriers_examples)

lemma carrier_count_mset:
  "carrier_count vs i = size (filter_mset (\<lambda>S. i \<in> S) (mset (map variant_carriers vs)))"
  by (induction vs) (auto simp: carrier_count_def)

lemma shared_inds_mset:
  assumes "mset (map variant_carriers vs) = mset (map variant_carriers vs')"
  shows "shared_inds vs = shared_inds vs'"
proof -
  have "length vs = length vs'"
    using assms by (metis length_map size_mset)
  moreover have "\<And>i. carrier_count vs i = carrier_count vs' i"
    using assms by (simp add: carrier_count_mset)
  ultimately show ?thesis by (auto simp: shared_inds_iff)
qed

text \<open>
  C9: the carrier set of a cluster is the same for every permutation of its variants; it
  depends only on the multiset of the per-variant carrier sets.
\<close>

theorem C9_order_independent:
  "(mset vs = mset vs' \<longrightarrow> shared_inds vs = shared_inds vs')
   \<and> (mset (map variant_carriers vs) = mset (map variant_carriers vs')
        \<longrightarrow> shared_inds vs = shared_inds vs')"
proof -
  have "mset vs = mset vs' \<Longrightarrow> mset (map variant_carriers vs) = mset (map variant_carriers vs')"
    by (metis mset_map)
  then show ?thesis using shared_inds_mset by blast
qed

theorem C9_order_independent_witness:
  "mset [v_both 1, v_first 2, v_none 3] = mset [v_none 3, v_both 1, v_first 2]
   \<and> shared_inds [v_both 1, v_first 2, v_none 3] = shared_inds [v_none 3, v_both 1, v_first 2]"
proof -
  have m: "mset [v_both 1, v_first 2, v_none 3] = mset [v_none 3, v_both 1, v_first 2]"
    by simp
  with C9_order_independent [of "[v_both 1, v_first 2, v_none 3]" "[v_none 3, v_both 1, v_first 2]"]
  show ?thesis by blast
qed

lemma carrier_count_pos: "0 < carrier_count vs i \<longleftrightarrow> (\<exists>v \<in> set vs. i \<in> variant_carriers v)"
  by (simp add: carrier_count_def filter_empty_conv)

text \<open>
  C10: the carrier set of a cluster is contained in the union of the per-variant carrier
  sets, also when the threshold is 0: for a cluster of one variant the threshold is 0 and
  the carrier set is the carrier set of that variant.
\<close>

theorem C10_shared_subset_union:
  "shared_inds vs \<subseteq> \<Union> (set (individual_sets vs))
   \<and> threshold_of 1 = 0 \<and> shared_inds [v] = variant_carriers v"
proof -
  have a: "shared_inds vs \<subseteq> \<Union> (set (individual_sets vs))"
    by (auto simp: shared_inds_iff carrier_count_pos individual_sets_def)
  have b: "threshold_of 1 = 0" by (simp add: threshold_of_div)
  have c: "shared_inds [v] = variant_carriers v"
    by (auto simp: shared_inds_iff carrier_count_pos threshold_of_div)
  from a b c show ?thesis by simp
qed

theorem C10_shared_subset_union_witness:
  "shared_inds [v_first 100] = {0} \<and> 1 \<notin> shared_inds [v_first 100]
   \<and> shared_inds ex10 \<subseteq> {0, 1}"
proof -
  have u: "\<Union> (set (individual_sets ex10)) = {0, 1}"
    by (auto simp: individual_sets_def ex10_def carriers_examples)
  from C10_shared_subset_union [of ex10 "v_first 100"] u show ?thesis
    by (simp add: carriers_examples)
qed

subsection \<open>Gene regions, discarded clusters and the accumulator\<close>

lemma region_loop_iff:
  "region_loop c s e rs \<longleftrightarrow> (\<exists>(rc, rs', re) \<in> set rs. c = rc \<and> \<not> (e < rs' \<or> s > re))"
  by (induction c s e rs rule: region_loop.induct) auto

text \<open>
  The interval test of the filter, with the chromosome as the code normalises it; a block
  that ends at the start of a region meets it, a block that starts one past its end does
  not.
\<close>

lemma overlaps_gene_region_iff:
  "overlaps_gene_region chrom start end regions \<longleftrightarrow>
      (\<exists>(region_chrom, region_start, region_end) \<in> set regions.
          lstrip ''chr'' chrom = region_chrom \<and> \<not> (end < region_start \<or> start > region_end))"
  by (auto simp: overlaps_gene_region_def region_loop_iff)

lemma overlaps_gene_region_boundary:
  "(start \<le> end \<and> end = region_start \<and> region_start \<le> region_end \<longrightarrow>
      overlaps_gene_region chrom start end [(lstrip ''chr'' chrom, region_start, region_end)])
   \<and> (start = region_end + 1 \<longrightarrow>
      \<not> overlaps_gene_region chrom start end [(lstrip ''chr'' chrom, region_start, region_end)])"
  by (auto simp: overlaps_gene_region_def)

text \<open>
  Where the character strip and the prefix removal agree on every name involved, the
  filter of the code is the filter of the specification.
\<close>

lemma gene_filter_agrees_on_clean_names:
  assumes "lstrip ''chr'' chrom = strip_chr_prefix chrom"
    and "\<forall>row \<in> set rows. lstrip ''chr'' (chromosome_name row) = strip_chr_prefix (chromosome_name row)"
  shows "overlaps_gene_region chrom start end (load_gene_regions rows)
           = spec_gene_filter chrom start end rows"
  using assms
  by (auto simp: overlaps_gene_region_iff load_gene_regions_def spec_gene_filter_def list_ex_iff)

text \<open>
  C6 fails on the code: a block on \<open>chrs37d5\<close> passes the filter against a gene table whose
  only row is on \<open>hs37d5\<close>, although with the prefix removed the two names differ and no
  region is on the block's chromosome. The cause is the character strip reported under
  C8.
\<close>

theorem C6_filter_other_chromosome:
  "overlaps_gene_region ''chrs37d5'' 15000 15000 (load_gene_regions [row_hs37d5])
   \<and> \<not> spec_gene_filter ''chrs37d5'' 15000 15000 [row_hs37d5]
   \<and> strip_chr_prefix ''chrs37d5'' = ''s37d5''
   \<and> strip_chr_prefix (chromosome_name row_hs37d5) = ''hs37d5''"
  by (simp add: overlaps_gene_region_def load_gene_regions_def spec_gene_filter_def
      row_hs37d5_def strip_chr_prefix_def lstrip_def BUFFER_def)

text \<open>
  C8 fails on the code: \<^verbatim>\<open>lstrip("chr")\<close> removes every leading \<open>c\<close>, \<open>h\<close> and \<open>r\<close>, not
  the prefix. The contig name \<open>hs37d5\<close> has no such prefix and loses its first letter, on
  the gene-region side and on the variant side, so that variants of \<open>hs37d5\<close> and of
  \<open>chrs37d5\<close> both match a region loaded as \<open>hs37d5\<close>.
\<close>

theorem C8_lstrip_strips_characters:
  "lstrip ''chr'' ''hs37d5'' = ''s37d5'' \<and> strip_chr_prefix ''hs37d5'' = ''hs37d5''
   \<and> load_gene_regions [\<lparr>chromosome_name = ''hs37d5'', start_position = 20000, end_position = 30000\<rparr>]
       = [(''s37d5'', 10000, 40000)]
   \<and> overlaps_gene_region ''hs37d5'' 15000 15000 [(''s37d5'', 10000, 40000)]
   \<and> overlaps_gene_region ''chrs37d5'' 15000 15000 [(''s37d5'', 10000, 40000)]"
  by (simp add: lstrip_def strip_chr_prefix_def load_gene_regions_def BUFFER_def
      overlaps_gene_region_def)

text \<open>
  The padding itself is as claimed: 10000 on both sides, the start floored at 0.
\<close>

lemma load_gene_regions_padding:
  "(c, s, e) \<in> set (load_gene_regions rows) \<Longrightarrow>
     0 \<le> s \<and> (\<exists>row \<in> set rows. c = lstrip ''chr'' (chromosome_name row)
        \<and> s = max 0 (start_position row - 10000) \<and> e = end_position row + 10000)"
  by (auto simp: load_gene_regions_def BUFFER_def)

text \<open>
  On a name whose remainder does not begin with \<open>c\<close>, \<open>h\<close> or \<open>r\<close> the code removes the prefix alone.
\<close>

lemma lstrip_chr_prefix:
  "t = [] \<or> hd t \<notin> {CHR ''c'', CHR ''h'', CHR ''r''} \<Longrightarrow> lstrip ''chr'' (''chr'' @ t) = t"
  by (cases t) (auto simp: lstrip_def)

lemma shared_inds_single: "shared_inds [v] = variant_carriers v"
  by (auto simp: shared_inds_iff carrier_count_pos threshold_of_div)

text \<open>
  C7: a cluster whose number of shared carriers is below \<open>min_individuals\<close>, or above a
  configured \<open>max_individuals\<close>, prints nothing and raises nothing; the blocks are not
  reached.
\<close>

theorem C7_discarded:
  "int (card (shared_inds variants)) < min_individuals cfg
   \<or> (\<exists>m. max_individuals cfg = Some m \<and> int (card (shared_inds variants)) > m)
   \<Longrightarrow> flush_cluster fl cfg variants p n = ([], None)"
  by (auto simp: flush_cluster_def Let_def above_bound_def)

theorem C7_discarded_witness:
  "int (card (shared_inds [v_first 100])) < min_individuals cfg0
   \<and> flush_cluster sample_float cfg0 [v_first 100] None None = ([], None)"
proof -
  have c: "int (card (shared_inds [v_first 100])) < min_individuals cfg0"
    by (simp add: shared_inds_single carriers_examples cfg0_def)
  with C7_discarded [of "[v_first 100]" cfg0 sample_float None None] show ?thesis by simp
qed

lemma py_get_first: "xs \<noteq> [] \<Longrightarrow> py_get xs 0 = Inr (hd xs)"
  by (cases xs) (auto simp: py_get_def)

lemma py_get_last: "xs \<noteq> [] \<Longrightarrow> py_get xs (- 1) = Inr (last xs)"
  by (cases xs rule: rev_cases) (auto simp: py_get_def nth_append)

lemma step_inv:
  assumes "acc_inv s"
  shows "\<exists>call s'. step cd s v = Inr (call, s') \<and> acc_inv s'"
proof (cases "last_pos s")
  case None
  then show ?thesis using assms by (simp add: step_def acc_inv_def)
next
  case (Some lp)
  with assms have ne: "current_cluster s \<noteq> []" by (simp add: acc_inv_def)
  show ?thesis using Some ne
    by (simp add: step_def Let_def py_get_first py_get_last acc_inv_def)
qed

lemma run_steps_inv:
  "acc_inv s \<Longrightarrow> \<exists>s'. run_steps cd s vs = Inr s' \<and> acc_inv s'"
proof (induction vs arbitrary: s)
  case Nil
  then show ?case by simp
next
  case (Cons v vs)
  from step_inv [OF Cons.prems] obtain call s1 where
    s: "step cd s v = Inr (call, s1)" and i: "acc_inv s1" by blast
  from Cons.IH [OF i] s show ?case by simp
qed

lemma flush_empty: "flush_cluster fl cfg [] p n = ([], None)"
  by (simp add: flush_cluster_def)

lemma seq_printed_nothing: "seq_printed ([], None) b = b"
  by (cases b) (simp add: seq_printed_def)

lemma seq_printed_assoc: "seq_printed (seq_printed a b) c = seq_printed a (seq_printed b c)"
  by (cases a; cases b; cases c) (auto simp: seq_printed_def split: option.splits)

lemma main_loop_flush:
  "step cd s v = Inr (Some (Flush c p n), s')
   \<Longrightarrow> main_loop fl cfg cd s (v # rest)
       = seq_printed (flush_cluster fl cfg c p n) (main_loop fl cfg cd s' rest)"
  by (cases "flush_cluster fl cfg c p n")
     (auto simp: do_flush_def seq_printed_def split: option.splits prod.splits)

lemma main_loop_append:
  "step cd s v = Inr (None, s') \<Longrightarrow> main_loop fl cfg cd s (v # rest) = main_loop fl cfg cd s' rest"
  by simp

lemma main_loop_prefix:
  "run_steps cd s0 ps = Inr s
   \<Longrightarrow> \<exists>out. \<forall>rest. main_loop fl cfg cd s0 (ps @ rest)
                      = seq_printed out (main_loop fl cfg cd s rest)"
proof (induction ps arbitrary: s0)
  case Nil
  then have "\<forall>rest. main_loop fl cfg cd s0 ([] @ rest)
                  = seq_printed ([], None) (main_loop fl cfg cd s rest)"
    by (simp add: seq_printed_nothing)
  then show ?case by blast
next
  case (Cons v ps)
  from Cons.prems obtain call s1 where
    st: "step cd s0 v = Inr (call, s1)" and r: "run_steps cd s1 ps = Inr s"
    by (auto split: sum.splits)
  from Cons.IH [OF r] obtain out1 where
    o: "\<And>rest. main_loop fl cfg cd s1 (ps @ rest) = seq_printed out1 (main_loop fl cfg cd s rest)"
    by blast
  show ?case
  proof (cases call)
    case None
    with st o have "\<forall>rest. main_loop fl cfg cd s0 ((v # ps) @ rest)
                      = seq_printed out1 (main_loop fl cfg cd s rest)"
      by (simp add: main_loop_append)
    then show ?thesis by blast
  next
    case (Some c)
    obtain cl p n where c: "c = Flush cl p n" by (cases c) auto
    from st Some c have
      "\<And>rest. main_loop fl cfg cd s0 ((v # ps) @ rest)
          = seq_printed (flush_cluster fl cfg cl p n) (main_loop fl cfg cd s1 (ps @ rest))"
      by (simp add: main_loop_flush del: main_loop.simps)
    with o have "\<forall>rest. main_loop fl cfg cd s0 ((v # ps) @ rest)
          = seq_printed (seq_printed (flush_cluster fl cfg cl p n) out1)
              (main_loop fl cfg cd s rest)"
      by (simp add: seq_printed_assoc)
    then show ?thesis by blast
  qed
qed

text \<open>
  C3: after any prefix of the stream the loop is in a state \<open>s\<close>, and what the whole run
  prints is what the prefix printed followed by the run from \<open>s\<close>. With a non-empty
  cluster \<open>C\<close> buffered, \<open>last_pos\<close> is the position of the last variant of \<open>C\<close>, and an
  incoming \<open>v\<close> on another chromosome makes the loop call \<^verbatim>\<open>flush_cluster\<close> on \<open>C\<close> with
  no next flank and go on with \<open>[v]\<close> and no previous flank; on the same chromosome and
  further than the cluster distance it calls \<^verbatim>\<open>flush_cluster\<close> on \<open>C\<close> with next flank
  \<open>POS v\<close> and goes on with \<open>[v]\<close> and the last position of \<open>C\<close> as previous flank;
  otherwise it goes on with \<open>v\<close> appended and prints nothing. At the end of the stream
  the buffered cluster is flushed with no next flank, and flushing an empty cluster does
  nothing.
\<close>

theorem C3_accumulator_flushes:
  "\<exists>s. run_steps cd init_state ps = Inr s
     \<and> (\<exists>out. \<forall>rest'. main_loop fl cfg cd init_state (ps @ rest')
                        = seq_printed out (main_loop fl cfg cd s rest'))
     \<and> (current_cluster s \<noteq> [] \<longrightarrow>
        last_pos s = Some (POS (last (current_cluster s))) \<and>
        (CHROM v \<noteq> CHROM (hd (current_cluster s)) \<longrightarrow>
           step cd s v =
             Inr (Some (Flush (current_cluster s) (prev_nonshared_pos s) None),
                  \<lparr>current_cluster = [v], prev_nonshared_pos = None, last_pos = Some (POS v)\<rparr>)
           \<and> main_loop fl cfg cd s (v # rest) =
               seq_printed
                 (flush_cluster fl cfg (current_cluster s) (prev_nonshared_pos s) None)
                 (main_loop fl cfg cd
                    \<lparr>current_cluster = [v], prev_nonshared_pos = None, last_pos = Some (POS v)\<rparr>
                    rest)) \<and>
        (CHROM v = CHROM (hd (current_cluster s)) \<and> POS v - POS (last (current_cluster s)) > cd \<longrightarrow>
           step cd s v =
             Inr (Some (Flush (current_cluster s) (prev_nonshared_pos s) (Some (POS v))),
                  \<lparr>current_cluster = [v],
                   prev_nonshared_pos = Some (POS (last (current_cluster s))),
                   last_pos = Some (POS v)\<rparr>)
           \<and> main_loop fl cfg cd s (v # rest) =
               seq_printed
                 (flush_cluster fl cfg (current_cluster s) (prev_nonshared_pos s) (Some (POS v)))
                 (main_loop fl cfg cd
                    \<lparr>current_cluster = [v],
                     prev_nonshared_pos = Some (POS (last (current_cluster s))),
                     last_pos = Some (POS v)\<rparr>
                    rest)) \<and>
        (CHROM v = CHROM (hd (current_cluster s)) \<and> POS v - POS (last (current_cluster s)) \<le> cd \<longrightarrow>
           step cd s v =
             Inr (None, \<lparr>current_cluster = current_cluster s @ [v],
                         prev_nonshared_pos = prev_nonshared_pos s,
                         last_pos = Some (POS v)\<rparr>)
           \<and> main_loop fl cfg cd s (v # rest) =
               main_loop fl cfg cd
                 \<lparr>current_cluster = current_cluster s @ [v],
                  prev_nonshared_pos = prev_nonshared_pos s,
                  last_pos = Some (POS v)\<rparr>
                 rest))
     \<and> main_loop fl cfg cd s [] =
         flush_cluster fl cfg (current_cluster s) (prev_nonshared_pos s) None
     \<and> flush_cluster fl cfg [] p n = ([], None)"
proof -
  have "acc_inv init_state" by (simp add: acc_inv_def init_state_def)
  from run_steps_inv [OF this] obtain s where
    r: "run_steps cd init_state ps = Inr s" and i: "acc_inv s" by blast
  note pre = main_loop_prefix [OF r, of fl cfg]
  have lp: "current_cluster s \<noteq> [] \<Longrightarrow> last_pos s = Some (POS (last (current_cluster s)))"
    using i by (auto simp: acc_inv_def split: option.splits)
  have a: "current_cluster s \<noteq> [] \<Longrightarrow> CHROM v \<noteq> CHROM (hd (current_cluster s)) \<Longrightarrow>
      step cd s v =
        Inr (Some (Flush (current_cluster s) (prev_nonshared_pos s) None),
             \<lparr>current_cluster = [v], prev_nonshared_pos = None, last_pos = Some (POS v)\<rparr>)"
    using lp by (simp add: step_def py_get_first)
  have b: "current_cluster s \<noteq> [] \<Longrightarrow> CHROM v = CHROM (hd (current_cluster s)) \<Longrightarrow>
      POS v - POS (last (current_cluster s)) > cd \<Longrightarrow>
      step cd s v =
        Inr (Some (Flush (current_cluster s) (prev_nonshared_pos s) (Some (POS v))),
             \<lparr>current_cluster = [v],
              prev_nonshared_pos = Some (POS (last (current_cluster s))),
              last_pos = Some (POS v)\<rparr>)"
    using lp by (simp add: step_def py_get_first py_get_last)
  have c: "current_cluster s \<noteq> [] \<Longrightarrow> CHROM v = CHROM (hd (current_cluster s)) \<Longrightarrow>
      POS v - POS (last (current_cluster s)) \<le> cd \<Longrightarrow>
      step cd s v =
        Inr (None, \<lparr>current_cluster = current_cluster s @ [v],
                    prev_nonshared_pos = prev_nonshared_pos s,
                    last_pos = Some (POS v)\<rparr>)"
    using lp by (simp add: step_def py_get_first)
  have e: "main_loop fl cfg cd s [] =
      flush_cluster fl cfg (current_cluster s) (prev_nonshared_pos s) None"
    by (simp add: do_flush_def)
  show ?thesis
    using r pre lp a b c e main_loop_flush [of cd s v _ _ _ _ fl cfg rest]
      main_loop_append [of cd s v _ fl cfg rest] flush_empty [of fl cfg p n]
    by (intro exI [of _ s]) (simp del: main_loop.simps)
qed

theorem C3_accumulator_flushes_witness:
  "run_steps 50 init_state [v_both 100, v_both 110] = Inr st2
   \<and> step 50 st2 (v_both 500) =
       Inr (Some (Flush [v_both 100, v_both 110] None (Some 500)),
            \<lparr>current_cluster = [v_both 500], prev_nonshared_pos = Some 110,
             last_pos = Some 500\<rparr>)
   \<and> main_loop sample_float cfg0 50 st2 [v_both 500] =
       seq_printed (flush_cluster sample_float cfg0 [v_both 100, v_both 110] None (Some 500))
         (main_loop sample_float cfg0 50
            \<lparr>current_cluster = [v_both 500], prev_nonshared_pos = Some 110,
             last_pos = Some 500\<rparr> [])
   \<and> step 50 st2 (v_both 120) =
       Inr (None, \<lparr>current_cluster = [v_both 100, v_both 110, v_both 120],
                   prev_nonshared_pos = None, last_pos = Some 120\<rparr>)
   \<and> step 50 st2 (mk_variant ''2'' 5 [] [] None) =
       Inr (Some (Flush [v_both 100, v_both 110] None None),
            \<lparr>current_cluster = [mk_variant ''2'' 5 [] [] None], prev_nonshared_pos = None,
             last_pos = Some 5\<rparr>)
   \<and> main_loop sample_float cfg0 50 st2 [mk_variant ''2'' 5 [] [] None] =
       seq_printed (flush_cluster sample_float cfg0 [v_both 100, v_both 110] None None)
         (main_loop sample_float cfg0 50
            \<lparr>current_cluster = [mk_variant ''2'' 5 [] [] None], prev_nonshared_pos = None,
             last_pos = Some 5\<rparr> [])"
proof -
  have r: "run_steps 50 init_state [v_both 100, v_both 110] = Inr st2"
    by (simp add: step_def init_state_def st2_def py_get_def v_both_def mk_variant_def)
  have c: "current_cluster st2 = [v_both 100, v_both 110]" "prev_nonshared_pos st2 = None"
    by (simp_all add: st2_def)
  from C3_accumulator_flushes [where cd = 50 and ps = "[v_both 100, v_both 110]"
      and v = "v_both 500" and fl = sample_float and cfg = cfg0 and rest = "[]"
      and p = None and n = None]
    C3_accumulator_flushes [where cd = 50 and ps = "[v_both 100, v_both 110]"
      and v = "v_both 120" and fl = sample_float and cfg = cfg0 and rest = "[]"
      and p = None and n = None]
    C3_accumulator_flushes [where cd = 50 and ps = "[v_both 100, v_both 110]"
      and v = "mk_variant ''2'' 5 [] [] None" and fl = sample_float and cfg = cfg0
      and rest = "[]" and p = None and n = None]
    r c
  show ?thesis by (simp add: v_both_def mk_variant_def del: main_loop.simps)
qed

subsection \<open>Blocks and flank gaps\<close>

lemma chained_le: "chained a bs b \<Longrightarrow> a \<le> b"
  by (induction a bs b rule: chained.induct) auto

lemma chained_snoc: "chained a bs c \<Longrightarrow> c \<le> e \<Longrightarrow> chained a (bs @ [(c, e, m)]) (e + 1)"
  by (induction a bs c rule: chained.induct) auto

lemma alternating_snoc:
  "alternating bs \<Longrightarrow> (bs \<noteq> [] \<longrightarrow> block_mode (last bs) \<noteq> block_mode b)
     \<Longrightarrow> alternating (bs @ [b])"
  by (induction bs rule: alternating.induct) auto

lemma chained_bounds: "chained a bs b \<Longrightarrow> (s, e, m) \<in> set bs \<Longrightarrow> a \<le> s \<and> s \<le> e \<and> e < b"
proof (induction a bs b rule: chained.induct)
  case (1 a b)
  then show ?case by simp
next
  case (2 a s' e' m' bs b)
  from "2.prems"(1) have c: "chained (e' + 1) bs b" and se: "s' = a" "s' \<le> e'" by auto
  from chained_le [OF c] have eb: "e' < b" by simp
  show ?case
  proof (cases "(s, e, m) = (s', e', m')")
    case True
    with se eb show ?thesis by simp
  next
    case False
    with "2.prems"(2) have "(s, e, m) \<in> set bs" by auto
    from "2.IH" [OF c this] se show ?thesis by simp
  qed
qed

lemma chained_concat: "chained a bs b \<Longrightarrow> concat (map block_range bs) = [a .. b - 1]"
proof (induction a bs b rule: chained.induct)
  case (1 a b)
  then show ?case by simp
next
  case (2 a s e m bs b)
  from "2.prems" have c: "chained (e + 1) bs b" and se: "s = a" "s \<le> e" by auto
  from chained_le [OF c] have eb: "e \<le> b - 1" by simp
  from se have ae: "a \<le> e" by simp
  have "[a .. b - 1] = [a .. e] @ [e + 1 .. b - 1]"
    using ae eb by (rule upto_split2)
  with "2.IH" [OF c] se show ?case by (simp add: block_range_def)
qed

lemma chained_sum: "chained a bs b \<Longrightarrow> sum_list (map block_size bs) = b - a"
  by (induction a bs b rule: chained.induct) (auto simp: block_size_def)

lemma chained_ordered:
  "chained a bs b \<Longrightarrow> i < j \<Longrightarrow> j < length bs \<Longrightarrow> fst (snd (bs ! i)) < fst (bs ! j)"
proof (induction a bs b arbitrary: i j rule: chained.induct)
  case (1 a b)
  then show ?case by simp
next
  case (2 a s e m bs b)
  from "2.prems"(1) have c: "chained (e + 1) bs b" by simp
  show ?case
  proof (cases i)
    case 0
    from "2.prems"(2,3) 0 obtain j' where j: "j = Suc j'" "j' < length bs"
      by (cases j) auto
    obtain s' e' m' where b: "bs ! j' = (s', e', m')" by (cases "bs ! j'") auto
    with j have "(s', e', m') \<in> set bs" by (metis nth_mem)
    from chained_bounds [OF c this] have "e + 1 \<le> s'" by simp
    with 0 j b show ?thesis by simp
  next
    case (Suc i')
    with "2.prems"(2,3) obtain j' where j: "j = Suc j'" "i' < j'" "j' < length bs"
      by (cases j) auto
    from "2.IH" [OF c j(2,3)] Suc j show ?thesis by simp
  qed
qed

lemma alternating_nth:
  "alternating bs \<Longrightarrow> Suc k < length bs \<Longrightarrow> block_mode (bs ! k) \<noteq> block_mode (bs ! Suc k)"
proof (induction bs arbitrary: k rule: alternating.induct)
  case (1 b1 b2 bs)
  then show ?case by (cases k) auto
qed auto

lemma segment_loop_inv:
  "segment_loop sh idx vs blocks cur bstart = Inr (blocks', cur', bstart')
   \<Longrightarrow> seg_inv idx blocks cur bstart
   \<Longrightarrow> seg_inv (idx + int (length vs)) blocks' cur' bstart'
       \<and> (cur \<noteq> None \<or> vs \<noteq> [] \<longrightarrow> cur' \<noteq> None)"
proof (induction vs arbitrary: idx blocks cur bstart)
  case Nil
  then show ?case by simp
next
  case (Cons v vs)
  from Cons.prems(1) obtain hom where h: "all_shared_homozygous v sh = Inr hom"
    by (cases "all_shared_homozygous v sh") auto
  define mode where "mode = (if hom then ''double'' else ''single'')"
  note inv = Cons.prems(2)
  show ?case
  proof (cases cur)
    case None
    with Cons.prems(1) h have
      l: "segment_loop sh (idx + 1) vs blocks (Some mode) bstart = Inr (blocks', cur', bstart')"
      by (simp add: mode_def Let_def)
    from inv None have "seg_inv (idx + 1) blocks (Some mode) bstart"
      by (auto simp: seg_inv_def)
    from Cons.IH [OF l this] show ?thesis by (simp add: add.assoc)
  next
    case (Some cm)
    show ?thesis
    proof (cases "mode = cm")
      case True
      with Cons.prems(1) h Some have
        l: "segment_loop sh (idx + 1) vs blocks cur bstart = Inr (blocks', cur', bstart')"
        by (simp add: mode_def Let_def)
      from inv Some have "seg_inv (idx + 1) blocks cur bstart"
        by (auto simp: seg_inv_def)
      from Cons.IH [OF l this] Some show ?thesis by (simp add: add.assoc)
    next
      case False
      with Cons.prems(1) h Some have
        l: "segment_loop sh (idx + 1) vs (blocks @ [(bstart, idx - 1, cur)]) (Some mode) idx
              = Inr (blocks', cur', bstart')"
        by (simp add: mode_def Let_def)
      from inv Some have c: "chained 0 blocks bstart" and a: "alternating blocks"
        and lb: "blocks \<noteq> [] \<longrightarrow> block_mode (last blocks) \<noteq> cur" and lt: "bstart < idx"
        by (auto simp: seg_inv_def)
      from lt have "bstart \<le> idx - 1" by simp
      from chained_snoc [OF c this, of cur] have c': "chained 0 (blocks @ [(bstart, idx - 1, cur)]) idx"
        by simp
      have a': "alternating (blocks @ [(bstart, idx - 1, cur)])"
        using a lb by (intro alternating_snoc) (auto simp: block_mode_def)
      have "seg_inv (idx + 1) (blocks @ [(bstart, idx - 1, cur)]) (Some mode) idx"
        using c' a' False Some by (auto simp: seg_inv_def block_mode_def)
      from Cons.IH [OF l this] show ?thesis by (simp add: add.assoc)
    qed
  qed
qed

lemma segment_blocks_chained:
  assumes "segment_blocks vs sh = Inr bs" and "vs \<noteq> []"
  shows "chained 0 bs (int (length vs)) \<and> alternating bs"
proof -
  from assms(1) obtain blocks cur bstart where
    l: "segment_loop sh 0 vs [] None 0 = Inr (blocks, cur, bstart)"
    and bs: "bs = blocks @ [(bstart, int (length vs) - 1, cur)]"
    by (auto simp: segment_blocks_def split: sum.splits)
  have "seg_inv 0 [] None 0" by (simp add: seg_inv_def)
  from segment_loop_inv [OF l this] assms(2) have
    i: "seg_inv (int (length vs)) blocks cur bstart" and n: "cur \<noteq> None" by auto
  from i n have c: "chained 0 blocks bstart" and a: "alternating blocks"
    and lb: "blocks \<noteq> [] \<longrightarrow> block_mode (last blocks) \<noteq> cur" and lt: "bstart < int (length vs)"
    by (auto simp: seg_inv_def)
  from lt have "bstart \<le> int (length vs) - 1" by simp
  from chained_snoc [OF c this, of cur] have "chained 0 bs (int (length vs))"
    by (simp add: bs)
  moreover have "alternating bs"
    unfolding bs using a lb by (intro alternating_snoc) (auto simp: block_mode_def)
  ultimately show ?thesis by simp
qed

lemma all_hom_loop_total:
  "\<forall>i \<in> set is. i < length gt \<Longrightarrow> \<exists>b. all_hom_loop gt is = Inr b"
  by (induction "is") (auto simp: py_get_def)

lemma finite_shared_inds: "finite (shared_inds vs)"
  by (simp add: shared_inds_def Let_def)

lemma all_shared_homozygous_total:
  "finite sh \<Longrightarrow> \<forall>i \<in> sh. i < length (gt_types v) \<Longrightarrow> \<exists>b. all_shared_homozygous v sh = Inr b"
  unfolding all_shared_homozygous_def by (rule all_hom_loop_total) simp

lemma segment_loop_total:
  "\<forall>v \<in> set vs. \<exists>b. all_shared_homozygous v sh = Inr b
   \<Longrightarrow> \<exists>r. segment_loop sh idx vs blocks cur bstart = Inr r"
  by (induction vs arbitrary: idx blocks cur bstart) (auto simp: Let_def)

lemma carrier_bound: "i \<in> variant_carriers v \<Longrightarrow> i < length (genotypes v)"
  by (simp add: variant_carriers_def carrier_list_def)

lemma shared_inds_bound:
  assumes "\<forall>v \<in> set vs. length (genotypes v) = n" and "i \<in> shared_inds vs"
  shows "i < n"
proof -
  from assms(2) obtain v where "v \<in> set vs" "i \<in> variant_carriers v"
    by (auto simp: shared_inds_iff carrier_count_pos)
  with assms(1) carrier_bound [of i v] show ?thesis by auto
qed

text \<open>
  C4: for a non-empty cluster of records with one call per sample the blocks are computed
  and partition the index range: their ranges, put one after the other, are the indices
  \<open>0\<close> to \<open>length - 1\<close>; the sizes add up to the cluster size; no block is empty; no two
  blocks share an index; and neighbouring blocks differ in mode. The carrier-count
  bounds play no part in this.
\<close>

theorem C4_blocks_partition:
  assumes "variants \<noteq> []"
    and "\<forall>v \<in> set variants. length (genotypes v) = n \<and> length (gt_types v) = n"
  shows "\<exists>bs. segment_blocks variants (shared_inds variants) = Inr bs
     \<and> concat (map block_range bs) = [0 .. int (length variants) - 1]
     \<and> sum_list (map block_size bs) = int (length variants)
     \<and> (\<forall>b \<in> set bs. 0 < block_size b)
     \<and> (\<forall>i j. i < j \<and> j < length bs \<longrightarrow>
           set (block_range (bs ! i)) \<inter> set (block_range (bs ! j)) = {})
     \<and> (\<forall>k. Suc k < length bs \<longrightarrow> block_mode (bs ! k) \<noteq> block_mode (bs ! Suc k))"
proof -
  let ?sh = "shared_inds variants"
  have "\<forall>v \<in> set variants. \<exists>b. all_shared_homozygous v ?sh = Inr b"
  proof
    fix v assume v: "v \<in> set variants"
    have "\<forall>i \<in> ?sh. i < length (gt_types v)"
      using shared_inds_bound [of variants n] assms(2) v by auto
    with finite_shared_inds show "\<exists>b. all_shared_homozygous v ?sh = Inr b"
      by (rule all_shared_homozygous_total)
  qed
  from segment_loop_total [OF this, of 0 "[]" None 0] obtain bs where
    bs: "segment_blocks variants ?sh = Inr bs"
    by (auto simp: segment_blocks_def split: sum.splits)
  from segment_blocks_chained [OF bs assms(1)] have
    c: "chained 0 bs (int (length variants))" and a: "alternating bs" by auto
  have p: "\<forall>b \<in> set bs. 0 < block_size b"
  proof
    fix b assume "b \<in> set bs"
    moreover obtain s e m where "b = (s, e, m)" by (cases b) auto
    ultimately have "b = (s, e, m)" "(s, e, m) \<in> set bs" by simp_all
    with chained_bounds [OF c, of s e m] show "0 < block_size b" by (simp add: block_size_def)
  qed
  have d: "\<forall>i j. i < j \<and> j < length bs \<longrightarrow>
             set (block_range (bs ! i)) \<inter> set (block_range (bs ! j)) = {}"
  proof (intro allI impI)
    fix i j assume ij: "i < j \<and> j < length bs"
    then have "fst (snd (bs ! i)) < fst (bs ! j)" using chained_ordered [OF c] by blast
    then show "set (block_range (bs ! i)) \<inter> set (block_range (bs ! j)) = {}"
      by (cases "bs ! i"; cases "bs ! j") (auto simp: block_range_def)
  qed
  have k: "\<forall>k. Suc k < length bs \<longrightarrow> block_mode (bs ! k) \<noteq> block_mode (bs ! Suc k)"
    using alternating_nth [OF a] by blast
  have "segment_blocks variants ?sh = Inr bs
     \<and> concat (map block_range bs) = [0 .. int (length variants) - 1]
     \<and> sum_list (map block_size bs) = int (length variants)
     \<and> (\<forall>b \<in> set bs. 0 < block_size b)
     \<and> (\<forall>i j. i < j \<and> j < length bs \<longrightarrow>
           set (block_range (bs ! i)) \<inter> set (block_range (bs ! j)) = {})
     \<and> (\<forall>k. Suc k < length bs \<longrightarrow> block_mode (bs ! k) \<noteq> block_mode (bs ! Suc k))"
    using bs chained_concat [OF c] chained_sum [OF c] p d k by simp
  then show ?thesis by (rule exI)
qed

lemma carriers_v_hom: "variant_carriers (v_hom p) = {0, 1}"
  by (auto simp: variant_carriers_def carrier_list_def v_hom_def
      mk_variant_def upt_rec [of 0] upt_rec [of 1] upt_rec [of 2] numeral_2_eq_2)

lemma shared_ex_seg: "shared_inds ex_seg = {0, 1}"
  by (auto simp: shared_inds_iff threshold_of_div carrier_count_def ex_seg_def carriers_v_hom
      carriers_examples split: if_splits)

lemma sorted_01: "sorted_list_of_set {0, Suc 0} = [0, Suc 0]"
proof -
  have "{0, Suc 0} = set [0, Suc 0]" by simp
  then have "sorted_list_of_set {0, Suc 0} = sort (remdups [0, Suc 0])"
    by (simp only: sorted_list_of_set_sort_remdups)
  then show ?thesis by simp
qed

lemma hom_ex:
  "all_shared_homozygous (v_hom p) {0, Suc 0} = Inr True"
  "all_shared_homozygous (v_both p) {0, Suc 0} = Inr False"
  by (simp_all add: all_shared_homozygous_def sorted_01 v_hom_def v_both_def mk_variant_def
      py_get_def)

lemma blocks_ex_seg:
  "segment_blocks ex_seg (shared_inds ex_seg) =
     Inr [(0, 1, Some ''double''), (2, 2, Some ''single''), (3, 4, Some ''double'')]"
  by (simp only: shared_ex_seg) (simp add: segment_blocks_def ex_seg_def hom_ex Let_def)

theorem C4_blocks_partition_witness:
  "ex_seg \<noteq> [] \<and> map (\<lambda>v. (length (genotypes v), length (gt_types v))) ex_seg = replicate 5 (2, 2)
   \<and> segment_blocks ex_seg (shared_inds ex_seg) =
       Inr [(0, 1, Some ''double''), (2, 2, Some ''single''), (3, 4, Some ''double'')]
   \<and> concat (map block_range [(0, 1, Some ''double''), (2, 2, Some ''single''), (3, 4, Some ''double'')])
       = [0 .. 4]
   \<and> sum_list (map block_size [(0, 1, Some ''double''), (2, 2, Some ''single''), (3, 4, Some ''double'')])
       = 5"
proof -
  have n: "ex_seg \<noteq> []" by (simp add: ex_seg_def)
  have w: "\<forall>v \<in> set ex_seg. length (genotypes v) = 2 \<and> length (gt_types v) = 2"
    by (simp add: ex_seg_def v_hom_def v_both_def mk_variant_def)
  have l: "int (length ex_seg) = 5" by (simp add: ex_seg_def)
  have m: "map (\<lambda>v. (length (genotypes v), length (gt_types v))) ex_seg = replicate 5 (2, 2)"
    by (simp add: ex_seg_def v_hom_def v_both_def mk_variant_def numeral_eq_Suc)
  from C4_blocks_partition [OF n w] n m l show ?thesis
    by (simp add: blocks_ex_seg)
qed

lemma emit_blocks_mem:
  "emit_blocks fl cfg vs p n chrom ns istr bs = (rs, err) \<Longrightarrow> r \<in> set rs
   \<Longrightarrow> \<exists>b \<in> set bs. process_block fl cfg vs p n chrom ns istr b = Inr (Some r)"
proof (induction bs arbitrary: rs err)
  case Nil
  then show ?case by simp
next
  case (Cons b bs)
  show ?case
  proof (cases "process_block fl cfg vs p n chrom ns istr b")
    case (Inl e)
    with Cons.prems show ?thesis by simp
  next
    case (Inr res)
    show ?thesis
    proof (cases res)
      case None
      with Inr Cons.prems have "emit_blocks fl cfg vs p n chrom ns istr bs = (rs, err)" by simp
      from Cons.IH [OF this Cons.prems(2)] show ?thesis by simp
    next
      case (Some r0)
      obtain rs' e' where t: "emit_blocks fl cfg vs p n chrom ns istr bs = (rs', e')"
        by (cases "emit_blocks fl cfg vs p n chrom ns istr bs") auto
      with Inr Some Cons.prems(1) have "rs = r0 # rs'" by simp
      with Cons.prems(2) have "r = r0 \<or> r \<in> set rs'" by simp
      then show ?thesis
      proof
        assume "r = r0"
        with Inr Some show ?thesis by simp
      next
        assume "r \<in> set rs'"
        from Cons.IH [OF t this] show ?thesis by simp
      qed
    qed
  qed
qed

lemma py_slice_block:
  assumes "0 \<le> s" "s \<le> e" "e < int (length xs)"
  shows "py_slice xs s (e + 1) = take (nat (e - s + 1)) (drop (nat s) xs)"
proof -
  have lo: "py_bound (length xs) s = nat s" using assms by (simp add: py_bound_def)
  have hi: "py_bound (length xs) (e + 1) = nat (e + 1)" using assms by (simp add: py_bound_def)
  have "nat (e + 1) - nat s = nat (e - s + 1)" using assms by simp
  with lo hi show ?thesis by (simp add: py_slice_def)
qed

lemma block_vars_ends:
  assumes "0 \<le> s" "s \<le> e" "e < int (length xs)"
  shows "length (py_slice xs s (e + 1)) = nat (e - s + 1)"
    and "py_get (py_slice xs s (e + 1)) 0 = Inr (xs ! nat s)"
    and "py_get (py_slice xs s (e + 1)) (- 1) = Inr (xs ! nat e)"
proof -
  let ?bv = "take (nat (e - s + 1)) (drop (nat s) xs)"
  have len: "length ?bv = nat (e - s + 1)" using assms by simp
  show "length (py_slice xs s (e + 1)) = nat (e - s + 1)"
    using len by (simp add: py_slice_block [OF assms])
  have pos: "0 < nat (e - s + 1)" using assms by simp
  have "?bv ! 0 = xs ! nat s" using assms pos by simp
  then show "py_get (py_slice xs s (e + 1)) 0 = Inr (xs ! nat s)"
    using len pos by (simp add: py_slice_block [OF assms] py_get_def)
  have "nat (int (nat (e - s + 1)) - 1) = nat (e - s)" using assms by simp
  moreover have "?bv ! nat (e - s) = xs ! (nat s + nat (e - s))" using assms by simp
  moreover have "nat s + nat (e - s) = nat e" using assms by simp
  ultimately show "py_get (py_slice xs s (e + 1)) (- 1) = Inr (xs ! nat e)"
    using len pos by (simp add: py_slice_block [OF assms] py_get_def)
qed

lemma flank_pos_inside:
  "0 \<le> i \<Longrightarrow> i < int (length xs) \<Longrightarrow> flank_pos True xs i outer = Inr (Some (POS (xs ! nat i)))"
  by (simp add: flank_pos_def py_get_def)

lemma flank_pos_outside: "flank_pos False xs i outer = Inr outer"
  by (simp add: flank_pos_def)

lemma process_block_flanks:
  assumes b: "0 \<le> s" "s \<le> e" "e < int (length xs)"
    and p: "process_block fl cfg xs prev nxt chrom ns istr (s, e, m) = Inr (Some r)"
  shows "out_start r = POS (xs ! nat s) \<and> out_end r = POS (xs ! nat e)
     \<and> out_err_left r =
          (if s = 0 then (case prev of None \<Rightarrow> None | Some q \<Rightarrow> Some (out_start r - q))
           else Some (out_start r - POS (xs ! nat (s - 1))))
     \<and> out_err_right r =
          (if e = int (length xs) - 1
           then (case nxt of None \<Rightarrow> None | Some q \<Rightarrow> Some (q - out_end r))
           else Some (POS (xs ! nat (e + 1)) - out_end r))"
proof -
  have l: "flank_pos (s > 0) xs (s - 1) prev =
             (if s = 0 then Inr prev else Inr (Some (POS (xs ! nat (s - 1)))))"
    using b by (cases "s = 0") (simp_all add: flank_pos_outside flank_pos_inside)
  have r: "flank_pos (e + 1 < int (length xs)) xs (e + 1) nxt =
             (if e = int (length xs) - 1 then Inr nxt else Inr (Some (POS (xs ! nat (e + 1)))))"
    using b by (cases "e = int (length xs) - 1") (simp_all add: flank_pos_outside flank_pos_inside)
  from p show ?thesis
    unfolding process_block_def
    by (simp only: prod.case Let_def block_vars_ends [OF b] l r sum.case)
       (auto split: if_splits option.splits)
qed

lemma flush_cluster_printed:
  assumes "flush_cluster fl cfg vs prev nxt = (rs, err)" and "r \<in> set rs"
  shows "vs \<noteq> [] \<and> (\<exists>bs chrom ns istr. segment_blocks vs (shared_inds vs) = Inr bs
            \<and> emit_blocks fl cfg vs prev nxt chrom ns istr bs = (rs, err))"
  using assms by (auto simp: flush_cluster_def Let_def split: if_splits sum.splits)

text \<open>
  C5: every printed line belongs to a block of the cluster; its left gap is taken from the
  previous flank exactly when the block starts at index 0, and otherwise from the variant
  just before the block; its right gap is taken from the next flank exactly when the block
  ends at the last index, and otherwise from the variant just after it; a flank that is
  \<^verbatim>\<open>None\<close> gives the gap \<^verbatim>\<open>None\<close>.
\<close>

theorem C5_flank_gaps:
  assumes "flush_cluster fl cfg variants prev_flank next_flank = (rs, err)" and "r \<in> set rs"
  shows "\<exists>bs b_start b_end mode.
       segment_blocks variants (shared_inds variants) = Inr bs
     \<and> (b_start, b_end, mode) \<in> set bs
     \<and> 0 \<le> b_start \<and> b_start \<le> b_end \<and> b_end < int (length variants)
     \<and> out_start r = POS (variants ! nat b_start) \<and> out_end r = POS (variants ! nat b_end)
     \<and> out_err_left r =
          (if b_start = 0
           then (case prev_flank of None \<Rightarrow> None | Some q \<Rightarrow> Some (out_start r - q))
           else Some (out_start r - POS (variants ! nat (b_start - 1))))
     \<and> out_err_right r =
          (if b_end = int (length variants) - 1
           then (case next_flank of None \<Rightarrow> None | Some q \<Rightarrow> Some (q - out_end r))
           else Some (POS (variants ! nat (b_end + 1)) - out_end r))"
proof -
  from flush_cluster_printed [OF assms] obtain bs chrom ns istr where
    ne: "variants \<noteq> []" and sb: "segment_blocks variants (shared_inds variants) = Inr bs"
    and em: "emit_blocks fl cfg variants prev_flank next_flank chrom ns istr bs = (rs, err)"
    by blast
  from emit_blocks_mem [OF em assms(2)] obtain b where
    bm: "b \<in> set bs"
    and pb: "process_block fl cfg variants prev_flank next_flank chrom ns istr b = Inr (Some r)"
    by blast
  obtain s e m where b: "b = (s, e, m)" by (cases b) auto
  from segment_blocks_chained [OF sb ne] have "chained 0 bs (int (length variants))" by simp
  from chained_bounds [OF this, of s e m] bm b have
    bd: "0 \<le> s" "s \<le> e" "e < int (length variants)" by simp_all
  from process_block_flanks [OF bd pb [unfolded b]] sb bm b bd show ?thesis by blast
qed

lemma card_shared_ex_seg: "card (shared_inds ex_seg) = 2"
  by (simp add: shared_ex_seg)

lemma sorted_shared_ex_seg: "sorted_list_of_set (shared_inds ex_seg) = [0, 1]"
  using sorted_01 by (simp add: shared_ex_seg)

lemma pos_ex_seg:
  "ex_seg \<noteq> []" "py_get ex_seg 0 = Inr (v_hom 100)" "int (length ex_seg) = 5"
  "CHROM (v_hom p) = ''1''" "POS (v_hom p) = p" "POS (v_both p) = p"
  "is_ultra_rare_variant fl (v_hom p) i t = False"
  "is_ultra_rare_variant fl (v_both p) i t = False"
  by (simp_all add: ex_seg_def py_get_def v_hom_def v_both_def mk_variant_def
      is_ultra_rare_variant_def csq_entries_of_def)

lemma overlaps_ex: "0 \<le> s \<Longrightarrow> s \<le> e \<Longrightarrow> e \<le> 10000
    \<Longrightarrow> overlaps_gene_region ''1'' s e [(''1'', 0, 10000)]"
  by (simp add: overlaps_gene_region_def lstrip_def)

lemma process_ex:
  "process_block sample_float cfg0 ex_seg (Some 50) None ''1'' 2 ''S0,S1'' (0, 1, Some ''double'')
     = Inr (Some rec1)"
  "process_block sample_float cfg0 ex_seg (Some 50) None ''1'' 2 ''S0,S1'' (2, 2, Some ''single'')
     = Inr None"
  "process_block sample_float cfg0 ex_seg (Some 50) None ''1'' 2 ''S0,S1'' (3, 4, Some ''double'')
     = Inr (Some rec2)"
  by (simp_all add: process_block_def py_slice_def py_bound_def py_get_def ex_seg_def pos_ex_seg
      cfg0_def below_bound_def above_bound_def overlaps_ex flank_pos_def rec1_def rec2_def Let_def)

lemma flush_ex_seg:
  "flush_cluster sample_float cfg0 ex_seg (Some 50) None = ([rec1, rec2], None)"
proof -
  have ids: "lookup_ids (sample_ids cfg0) [0, 1] = Inr [''S0'', ''S1'']"
    by (simp add: cfg0_def py_get_def)
  have b: "min_individuals cfg0 = 2" "max_individuals cfg0 = Some 5"
    by (simp_all add: cfg0_def)
  show ?thesis
    unfolding flush_cluster_def Let_def
    by (simp only: pos_ex_seg sorted_shared_ex_seg ids blocks_ex_seg card_shared_ex_seg
        if_False sum.case)
       (simp add: process_ex b above_bound_def)
qed

theorem C5_flank_gaps_witness:
  "flush_cluster sample_float cfg0 ex_seg (Some 50) None = ([rec1, rec2], None)
   \<and> rec2 \<in> set [rec1, rec2]
   \<and> (\<exists>bs b_start b_end mode.
         segment_blocks ex_seg (shared_inds ex_seg) = Inr bs
       \<and> (b_start, b_end, mode) \<in> set bs
       \<and> 0 \<le> b_start \<and> b_start \<le> b_end \<and> b_end < int (length ex_seg)
       \<and> out_start rec2 = POS (ex_seg ! nat b_start) \<and> out_end rec2 = POS (ex_seg ! nat b_end)
       \<and> out_err_left rec2 =
            (if b_start = 0
             then (case Some 50 of None \<Rightarrow> None | Some q \<Rightarrow> Some (out_start rec2 - q))
             else Some (out_start rec2 - POS (ex_seg ! nat (b_start - 1))))
       \<and> out_err_right rec2 =
            (if b_end = int (length ex_seg) - 1
             then (case None of None \<Rightarrow> None | Some q \<Rightarrow> Some (q - out_end rec2))
             else Some (POS (ex_seg ! nat (b_end + 1)) - out_end rec2)))"
proof -
  have m: "rec2 \<in> set [rec1, rec2]" by simp
  from C5_flank_gaps [OF flush_ex_seg m] flush_ex_seg m show ?thesis by blast
qed

end
